theory Spec2Isabelle
  imports Main
begin

section \<open>Node model\<close>

text \<open>
  The walkers of \<^verbatim>\<open>xmlschema/xpath.py\<close> run over Python objects linked by their
  child sequences. Objects are shared and may form cycles, so a node is addressed by a
  handle (its object identity) and a store gives the fields of every object. The fields
  are the ones the walkers read: \<^verbatim>\<open>tag\<close> (the \<^verbatim>\<open>name\<close> attribute), \<^verbatim>\<open>text\<close>,
  \<^verbatim>\<open>attrib.items()\<close> in iteration order, the children in \<^verbatim>\<open>__iter__\<close> order,
  \<^verbatim>\<open>is_global\<close> and \<^verbatim>\<open>getattr(node, 'ref', None)\<close>.
\<close>

type_synonym handle = nat

record node =
  tag :: string
  elem_text :: "string option"
  attrib :: "(string \<times> string) list"
  children :: "handle list"
  is_global :: bool
  ref :: "handle option"

type_synonym store = "handle \<Rightarrow> node"

text \<open>What a generator yields: a node, a text string, or a (name, value) attribute pair.\<close>

datatype item = is_Elem: Elem handle | is_Text: Text string | is_Attr: Attr "string \<times> string"

datatype error = IndexError

text \<open>
  A run of a generator function to exhaustion. \<open>None\<close>: the recursion never bottoms out
  within the given depth. \<open>Some (Inl e)\<close>: an exception. \<open>Some (Inr (ys, ls))\<close>: the items
  yielded, in order, and the registry list afterwards.
\<close>

type_synonym walk = "(error + item list \<times> handle list) option"

definition emit :: "item list \<Rightarrow> handle list \<Rightarrow> walk" where
  "emit ys ls = Some (Inr (ys, ls))"

definition raise :: "error \<Rightarrow> walk" where
  "raise e = Some (Inl e)"

text \<open>Sequencing: run \<open>m\<close>, then \<open>k\<close> on the registry \<open>m\<close> left; the yields are concatenated.\<close>

definition and_then :: "walk \<Rightarrow> (handle list \<Rightarrow> walk) \<Rightarrow> walk" where
  "and_then m k =
     (case m of
        None \<Rightarrow> None
      | Some (Inl e) \<Rightarrow> Some (Inl e)
      | Some (Inr (ys, ls)) \<Rightarrow>
          (case k ls of
             None \<Rightarrow> None
           | Some (Inl e) \<Rightarrow> Some (Inl e)
           | Some (Inr (zs, ls')) \<Rightarrow> Some (Inr (ys @ zs, ls'))))"

section \<open>Tag matching\<close>

text \<open>
  \<^verbatim>\<open>ElementPathMixin.match\<close>. \<^verbatim>\<open>tag[0]\<close> raises IndexError on the empty string. The
  last branch falls off the end of the function: the result is Python's \<^verbatim>\<open>None\<close>,
  here \<open>Inr None\<close>. A default namespace that is \<^verbatim>\<open>None\<close> or empty is falsy.
\<close>

definition match :: "node \<Rightarrow> string \<Rightarrow> string option \<Rightarrow> error + bool option" where
  "match self tg default_namespace =
     (case tg of
        [] \<Rightarrow> Inl IndexError
      | c # _ \<Rightarrow>
          if c = CHR ''{'' then Inr (Some (tag self = tg))
          else (case default_namespace of
                  None \<Rightarrow> Inr None
                | Some ns \<Rightarrow>
                    if ns \<noteq> []
                    then Inr (Some (tag self = tg \<or> tag self = ''{'' @ ns @ ''}'' @ tg))
                    else Inr None))"

text \<open>Truth value of what \<^verbatim>\<open>match\<close> returns: \<^verbatim>\<open>None\<close> is falsy.\<close>

fun truthy :: "bool option \<Rightarrow> bool" where
  "truthy None = False"
| "truthy (Some b) = b"

text \<open>The test \<^verbatim>\<open>tag is None or elem.match(tag)\<close> of \<^verbatim>\<open>iter\<close> and \<^verbatim>\<open>iterchildren\<close>.\<close>

definition tag_test :: "string option \<Rightarrow> node \<Rightarrow> error + bool" where
  "tag_test tg e =
     (case tg of
        None \<Rightarrow> Inr True
      | Some t \<Rightarrow> (case match e t None of Inl err \<Rightarrow> Inl err | Inr r \<Rightarrow> Inr (truthy r)))"

text \<open>A guarded yield, \<^verbatim>\<open>if tag is None or elem.match(tag): yield x\<close>.\<close>

definition yield_if :: "error + bool \<Rightarrow> item \<Rightarrow> handle list \<Rightarrow> walk" where
  "yield_if t x ls = (case t of Inl e \<Rightarrow> raise e | Inr b \<Rightarrow> emit (if b then [x] else []) ls)"

section \<open>The walkers\<close>

text \<open>
  \<^verbatim>\<open>safe_iter\<close> inside \<^verbatim>\<open>ElementPathMixin.iter\<close>. The first argument bounds the depth of
  nested generator calls. \<^verbatim>\<open>local_elements\<close> is the list \<open>ls\<close>, threaded through the
  calls as the closure variable is. \<^verbatim>\<open>child not in local_elements\<close> compares by
  \<^verbatim>\<open>is\<close> and then by \<^verbatim>\<open>==\<close>; the mixin and its base \<^verbatim>\<open>Sequence\<close> define no
  \<^verbatim>\<open>__eq__\<close>, so both are object identity: membership of the handle. The reference branch
  tests \<^verbatim>\<open>elem.match(tag)\<close>, the parent, as the source does.
\<close>

fun safe_iter :: "nat \<Rightarrow> store \<Rightarrow> string option \<Rightarrow> handle \<Rightarrow> handle list \<Rightarrow> walk"
  and safe_iter_children ::
    "nat \<Rightarrow> store \<Rightarrow> string option \<Rightarrow> handle \<Rightarrow> handle list \<Rightarrow> handle list \<Rightarrow> walk"
where
  "safe_iter 0 st tg elem ls = None"
| "safe_iter (Suc n) st tg elem ls =
     and_then (yield_if (tag_test tg (st elem)) (Elem elem) ls)
       (\<lambda>ls1. safe_iter_children n st tg elem (children (st elem)) ls1)"
| "safe_iter_children n st tg elem [] ls = emit [] ls"
| "safe_iter_children n st tg elem (child # rest) ls =
     (if is_global (st child) then
        and_then (safe_iter n st tg child ls)
          (\<lambda>ls1. safe_iter_children n st tg elem rest ls1)
      else if ref (st child) \<noteq> None then
        and_then (yield_if (tag_test tg (st elem)) (Elem child) ls)
          (\<lambda>ls1. safe_iter_children n st tg elem rest ls1)
      else if child \<notin> set ls then
        and_then (safe_iter n st tg child (ls @ [child]))
          (\<lambda>ls1. safe_iter_children n st tg elem rest ls1)
      else safe_iter_children n st tg elem rest ls)"

text \<open>
  \<^verbatim>\<open>ElementPathMixin.iter\<close>: \<^verbatim>\<open>'*'\<close> is the wildcard, the registry starts empty. The
  generator hands out the items only; the final registry is kept beside them so that
  statements can speak about it.
\<close>

definition iter :: "nat \<Rightarrow> store \<Rightarrow> handle \<Rightarrow> string option \<Rightarrow> walk" where
  "iter fuel st self tg =
     (let tg' = (if tg = Some ''*'' then None else tg)
      in safe_iter fuel st tg' self [])"

text \<open>\<^verbatim>\<open>ElementPathMixin.iterchildren\<close>: each child is tested with its own \<^verbatim>\<open>match\<close>.\<close>

fun iterchildren_loop :: "store \<Rightarrow> string option \<Rightarrow> handle list \<Rightarrow> error + item list" where
  "iterchildren_loop st tg [] = Inr []"
| "iterchildren_loop st tg (child # rest) =
     (case tag_test tg (st child) of
        Inl e \<Rightarrow> Inl e
      | Inr b \<Rightarrow>
          (case iterchildren_loop st tg rest of
             Inl e \<Rightarrow> Inl e
           | Inr ys \<Rightarrow> Inr ((if b then [Elem child] else []) @ ys)))"

definition iterchildren :: "store \<Rightarrow> handle \<Rightarrow> string option \<Rightarrow> error + item list" where
  "iterchildren st self tg =
     (let tg' = (if tg = Some ''*'' then None else tg)
      in iterchildren_loop st tg' (children (st self)))"

text \<open>The text item of a node: \<^verbatim>\<open>if elem.text is not None: yield elem.text\<close>.\<close>

definition text_items :: "node \<Rightarrow> item list" where
  "text_items e = (case elem_text e of None \<Rightarrow> [] | Some t \<Rightarrow> [Text t])"

text \<open>
  \<^verbatim>\<open>safe_iter_descendants\<close> inside \<^verbatim>\<open>ElementPathContext._iter_descendants\<close>. The
  context fields \<^verbatim>\<open>item\<close>, \<^verbatim>\<open>size\<close> and \<^verbatim>\<open>position\<close> are scratch cells for the
  consumer: every yield hands out the value assigned just before it, and the recursive
  call reads \<^verbatim>\<open>context.item\<close> right after the loop header has set it to the child. The
  guard \<^verbatim>\<open>if len(elem)\<close> only skips an empty loop.
\<close>

fun safe_iter_descendants :: "nat \<Rightarrow> store \<Rightarrow> handle \<Rightarrow> handle list \<Rightarrow> walk"
  and descendants_children :: "nat \<Rightarrow> store \<Rightarrow> handle list \<Rightarrow> handle list \<Rightarrow> walk"
where
  "safe_iter_descendants 0 st elem ls = None"
| "safe_iter_descendants (Suc n) st elem ls =
     and_then (emit (Elem elem # text_items (st elem)) ls)
       (\<lambda>ls1. descendants_children n st (children (st elem)) ls1)"
| "descendants_children n st [] ls = emit [] ls"
| "descendants_children n st (child # rest) ls =
     (if is_global (st child) then
        and_then (safe_iter_descendants n st child ls)
          (\<lambda>ls1. descendants_children n st rest ls1)
      else if ref (st child) \<noteq> None then
        and_then (emit [Elem child] ls) (\<lambda>ls1. descendants_children n st rest ls1)
      else if child \<notin> set ls then
        and_then (safe_iter_descendants n st child (ls @ [child]))
          (\<lambda>ls1. descendants_children n st rest ls1)
      else descendants_children n st rest ls)"

definition iter_descendants :: "nat \<Rightarrow> store \<Rightarrow> handle \<Rightarrow> walk" where
  "iter_descendants fuel st root = safe_iter_descendants fuel st root []"

text \<open>
  \<^verbatim>\<open>safe_iter_context\<close> inside \<^verbatim>\<open>ElementPathContext._iter_context\<close>: as above, with
  one item per attribute after the text.
\<close>

fun safe_iter_context :: "nat \<Rightarrow> store \<Rightarrow> handle \<Rightarrow> handle list \<Rightarrow> walk"
  and context_children :: "nat \<Rightarrow> store \<Rightarrow> handle list \<Rightarrow> handle list \<Rightarrow> walk"
where
  "safe_iter_context 0 st elem ls = None"
| "safe_iter_context (Suc n) st elem ls =
     and_then (emit (Elem elem # text_items (st elem) @ map Attr (attrib (st elem))) ls)
       (\<lambda>ls1. context_children n st (children (st elem)) ls1)"
| "context_children n st [] ls = emit [] ls"
| "context_children n st (child # rest) ls =
     (if is_global (st child) then
        and_then (safe_iter_context n st child ls)
          (\<lambda>ls1. context_children n st rest ls1)
      else if ref (st child) \<noteq> None then
        and_then (emit [Elem child] ls) (\<lambda>ls1. context_children n st rest ls1)
      else if child \<notin> set ls then
        and_then (safe_iter_context n st child (ls @ [child]))
          (\<lambda>ls1. context_children n st rest ls1)
      else context_children n st rest ls)"

definition iter_context :: "nat \<Rightarrow> store \<Rightarrow> handle \<Rightarrow> walk" where
  "iter_context fuel st root = safe_iter_context fuel st root []"

section \<open>Example stores\<close>

definition leaf :: node where
  "leaf = \<lparr>tag = ''{ns}x'', elem_text = None, attrib = [], children = [],
           is_global = False, ref = None\<rparr>"

text \<open>Node 0, tagged \<^verbatim>\<open>{ns}a\<close>, has one child: node 1, tagged \<^verbatim>\<open>{ns}b\<close>, a reference to node 2.\<close>

definition ref_store :: store where
  "ref_store =
     (\<lambda>_. leaf)
       (0 := leaf\<lparr>tag := ''{ns}a'', children := [1]\<rparr>,
        1 := leaf\<lparr>tag := ''{ns}b'', ref := Some 2\<rparr>)"

text \<open>Node 0 is global and is its own child.\<close>

definition loop_store :: store where
  "loop_store = (\<lambda>_. leaf)(0 := leaf\<lparr>is_global := True, children := [0]\<rparr>)"

text \<open>
  Node 0 is global with the local child 1, whose only child is node 0 again: a cycle
  through a global and a local node.
\<close>

definition cycle_store :: store where
  "cycle_store =
     (\<lambda>_. leaf)
       (0 := leaf\<lparr>is_global := True, children := [1]\<rparr>,
        1 := leaf\<lparr>children := [0]\<rparr>)"

text \<open>
  Node 0 carries text and one attribute; its children are node 1, a plain leaf, and node
  2, a reference to node 3 that has node 1 among its own children. Node 2 is listed twice.
\<close>

definition text_store :: store where
  "text_store =
     (\<lambda>_. leaf)
       (0 := leaf\<lparr>elem_text := Some ''hello'', attrib := [(''k'', ''v'')],
                  children := [2, 1, 2]\<rparr>,
        2 := leaf\<lparr>ref := Some 3, children := [1, 4]\<rparr>)"

text \<open>Node 0 lists the global node 1 twice; node 1 has the local child 2.\<close>

definition twice_store :: store where
  "twice_store =
     (\<lambda>_. leaf)
       (0 := leaf\<lparr>children := [1, 1]\<rparr>,
        1 := leaf\<lparr>is_global := True, children := [2]\<rparr>)"

text \<open>
  Node 0 is a local element that is its own child, as a local element declaration inside
  the recursive complex type that is also its type.
\<close>

definition self_store :: store where
  "self_store = (\<lambda>_. leaf)(0 := leaf\<lparr>children := [0]\<rparr>)"

text \<open>Node 0 has one child, node 1, flagged both global and reference, with child 2.\<close>

definition both_store :: store where
  "both_store =
     (\<lambda>_. leaf)
       (0 := leaf\<lparr>children := [1]\<rparr>,
        1 := leaf\<lparr>is_global := True, ref := Some 3, children := [2]\<rparr>)"

text \<open>
  Node 0 has text, an attribute and the children 1 and 3. Node 1, an ordinary local node,
  has text, an attribute and the child 2, which has text. Node 3 is a reference to node
  1 and carries text, an attribute and a child of its own.
\<close>

definition rich_store :: store where
  "rich_store =
     (\<lambda>_. leaf)
       (0 := leaf\<lparr>elem_text := Some ''r'', attrib := [(''a'', ''1'')], children := [1, 3]\<rparr>,
        1 := leaf\<lparr>elem_text := Some ''t'', attrib := [(''c'', ''3'')], children := [2]\<rparr>,
        2 := leaf\<lparr>elem_text := Some ''u''\<rparr>,
        3 := leaf\<lparr>elem_text := Some ''x'', attrib := [(''k'', ''v'')], children := [2],
                  ref := Some 1\<rparr>)"


section \<open>Predicates used in the statements\<close>

text \<open>
  What a run may add to the registry: handles that are new, pairwise distinct, and whose
  nodes are neither global nor references.
\<close>

definition fresh :: "store \<Rightarrow> handle list \<Rightarrow> handle list \<Rightarrow> bool" where
  "fresh st ls new \<longleftrightarrow> distinct new \<and> set new \<inter> set ls = {}
     \<and> (\<forall>h\<in>set new. \<not> is_global (st h) \<and> ref (st h) = None)"

text \<open>A run with everything but the nodes dropped from its items.\<close>

definition only_elems :: "walk \<Rightarrow> walk" where
  "only_elems w =
     (case w of
        None \<Rightarrow> None
      | Some (Inl e) \<Rightarrow> Some (Inl e)
      | Some (Inr (xs, ls)) \<Rightarrow> Some (Inr (filter is_Elem xs, ls)))"


text \<open>
  A store whose first \<open>N\<close> handles are closed under the child relation (the finite set of
  objects a walk can reach), and a ranking \<open>rk\<close>, bounded by \<open>R\<close>, that strictly decreases
  from every node to each of its global children: no cycle of child links runs through
  global nodes only.
\<close>

definition closed_store :: "store \<Rightarrow> nat \<Rightarrow> bool" where
  "closed_store st N \<longleftrightarrow> (\<forall>h\<in>set [0..<N]. \<forall>c\<in>set (children (st h)). c < N)"

definition global_ranked :: "store \<Rightarrow> nat \<Rightarrow> (handle \<Rightarrow> nat) \<Rightarrow> nat \<Rightarrow> bool" where
  "global_ranked st N rk R \<longleftrightarrow>
     (\<forall>h\<in>set [0..<N]. rk h \<le> R
        \<and> (\<forall>c\<in>set (children (st h)). is_global (st c) \<longrightarrow> rk c < rk h))"

section \<open>Trees and the naive traversal\<close>

text \<open>
  A tree of handles, and what it means for a store to hold it: every node of the tree has
  exactly the listed children, and is neither global nor a reference. When the handles of
  the tree are pairwise distinct, no node object is reached from two parents.
\<close>

datatype ltree = LNode handle "ltree list"

fun root_of :: "ltree \<Rightarrow> handle" where
  "root_of (LNode h ts) = h"

fun preorder :: "ltree \<Rightarrow> handle list" where
  "preorder (LNode h ts) = h # concat (map preorder ts)"

fun height :: "ltree \<Rightarrow> nat" where
  "height (LNode h ts) = Suc (foldr max (map height ts) 0)"

fun shaped :: "store \<Rightarrow> ltree \<Rightarrow> bool" where
  "shaped st (LNode h ts) \<longleftrightarrow>
     children (st h) = map root_of ts \<and> \<not> is_global (st h) \<and> ref (st h) = None
     \<and> (\<forall>t\<in>set ts. shaped st t)"

text \<open>
  The naive recursive pre-order traversal, in the words of the specification: the root
  first, then the subtree of each child in document order. It follows child links with
  no registry and no flags; the first argument bounds the recursion depth.
\<close>

fun naive_preorder :: "nat \<Rightarrow> store \<Rightarrow> handle \<Rightarrow> handle list option" where
  "naive_preorder 0 st h = None"
| "naive_preorder (Suc n) st h =
     map_option (\<lambda>xss. h # concat xss) (those (map (naive_preorder n st) (children (st h))))"

fun node_count :: "ltree \<Rightarrow> nat" where
  "node_count (LNode h ts) = Suc (sum_list (map node_count ts))"

text \<open>A three-node tree: node 0 with children 1 and 2.\<close>

definition small_tree :: ltree where
  "small_tree = LNode 0 [LNode 1 [], LNode 2 []]"

definition small_store :: store where
  "small_store = (\<lambda>_. leaf)(0 := leaf\<lparr>children := [1, 2]\<rparr>)"

text \<open>
  The order of the full-context walk on a tree, in the words of the specification: the
  node itself; then, if its text is not \<^verbatim>\<open>None\<close>, one text item; then one (name, value)
  item per attribute; then the items of its children in document order.
\<close>

fun context_order :: "store \<Rightarrow> ltree \<Rightarrow> item list" where
  "context_order st (LNode h ts) =
     [Elem h] @ (case elem_text (st h) of None \<Rightarrow> [] | Some t \<Rightarrow> [Text t])
       @ map Attr (attrib (st h)) @ concat (map (context_order st) ts)"

text \<open>The subtree of \<open>rich_store\<close> under node 1.\<close>

definition rich_tree :: ltree where
  "rich_tree = LNode 1 [LNode 2 []]"



section \<open>Basic facts about runs\<close>

lemma and_then_None [simp]: "and_then None k = None"
  by (simp add: and_then_def)

lemma and_then_Inl [simp]: "and_then (Some (Inl e)) k = Some (Inl e)"
  by (simp add: and_then_def)

lemma and_then_eq_Inr:
  "and_then m k = Some (Inr (xs, ls')) \<longleftrightarrow>
     (\<exists>ys ls1 zs. m = Some (Inr (ys, ls1)) \<and> k ls1 = Some (Inr (zs, ls')) \<and> xs = ys @ zs)"
  by (auto simp: and_then_def split: option.splits sum.splits)

lemma and_then_eq_None:
  "and_then m k = None \<longleftrightarrow>
     (m = None \<or> (\<exists>ys ls1. m = Some (Inr (ys, ls1)) \<and> k ls1 = None))"
  by (auto simp: and_then_def split: option.splits sum.splits)

lemma and_then_eq_Inl:
  "and_then m k = Some (Inl e) \<longleftrightarrow>
     (m = Some (Inl e) \<or> (\<exists>ys ls1. m = Some (Inr (ys, ls1)) \<and> k ls1 = Some (Inl e)))"
  by (auto simp: and_then_def split: option.splits sum.splits)

lemma yield_if_eq_Inr:
  "yield_if t x ls = Some (Inr (ys, ls')) \<longleftrightarrow>
     (\<exists>b. t = Inr b \<and> ys = (if b then [x] else []) \<and> ls' = ls)"
  by (auto simp: yield_if_def raise_def emit_def split: sum.splits)

lemma emit_eq_Inr: "emit xs ls = Some (Inr (ys, ls')) \<longleftrightarrow> ys = xs \<and> ls' = ls"
  by (auto simp: emit_def)

lemmas run_simps = and_then_eq_Inr yield_if_eq_Inr emit_eq_Inr

lemma tag_test_None [simp]: "tag_test None e = Inr True"
  by (simp add: tag_test_def)

section \<open>Tag matching and the filtered walk\<close>

lemma tag_test_unqualified:
  assumes "tg \<noteq> []" and "hd tg \<noteq> CHR ''{''"
  shows "tag_test (Some tg) e = Inr False"
  using assms by (cases tg) (auto simp: match_def tag_test_def)

lemma unqualified_yields_nothing:
  assumes "tg \<noteq> []" and "hd tg \<noteq> CHR ''{''"
  shows "safe_iter n st tg' elem ls = Some (Inr (ys, ls')) \<Longrightarrow> tg' = Some tg \<Longrightarrow> ys = []"
    and "safe_iter_children n st tg' elem cs ls = Some (Inr (ys, ls')) \<Longrightarrow> tg' = Some tg
           \<Longrightarrow> ys = []"
proof (induction n st tg' elem ls and n st tg' elem cs ls arbitrary: ys ls' and ys ls'
    rule: safe_iter_safe_iter_children.induct)
  case (1 st tg' elem ls)
  then show ?case by simp
next
  case (2 n st tg' elem ls)
  then show ?case
    using tag_test_unqualified [OF assms] by (auto simp: run_simps)
next
  case (3 n st tg' elem ls)
  then show ?case by (simp add: run_simps)
next
  case (4 n st tg' elem child rest ls)
  then show ?case
    using tag_test_unqualified [OF assms] by (auto simp: run_simps split: if_splits)
qed

text \<open>
  C1, evaluated on the code. Node 0 is tagged \<^verbatim>\<open>{ns}a\<close> and its only child, node 1, is a
  reference tagged \<^verbatim>\<open>{ns}b\<close>. Filtering by \<^verbatim>\<open>{ns}a\<close> yields the reference child although
  it does not match; filtering by \<^verbatim>\<open>{ns}b\<close> yields nothing although the reference child
  matches. \<^verbatim>\<open>iterchildren\<close>, which tests the child itself, yields it.
\<close>

theorem iter_reference_child_tested_on_parent:
  "iter 2 ref_store 0 (Some ''{ns}a'') = Some (Inr ([Elem 0, Elem 1], []))
   \<and> match (ref_store 1) ''{ns}a'' None = Inr (Some False)
   \<and> iter 2 ref_store 0 (Some ''{ns}b'') = Some (Inr ([], []))
   \<and> match (ref_store 1) ''{ns}b'' None = Inr (Some True)
   \<and> iterchildren ref_store 0 (Some ''{ns}b'') = Inr [Elem 1]"
  by code_simp

text \<open>
  C10, as the code has it. For a non-empty tag whose first character is not an opening
  brace, \<^verbatim>\<open>match\<close> returns a comparison result exactly when the default namespace is
  non-empty, and returns \<^verbatim>\<open>None\<close> when the default namespace is \<^verbatim>\<open>None\<close> or empty,
  whatever the tag of the node. \<^verbatim>\<open>iter\<close> calls \<^verbatim>\<open>match\<close> without a default namespace,
  so a walk filtered by such a tag (other than the wildcard) yields nothing.
\<close>

theorem unqualified_match_needs_default_namespace:
  assumes "tg \<noteq> []" and "hd tg \<noteq> CHR ''{''"
  shows "((\<exists>b. match e tg ns = Inr (Some b)) \<longleftrightarrow> (\<exists>s. ns = Some s \<and> s \<noteq> []))
    \<and> ((ns = None \<or> ns = Some []) \<longrightarrow> match e tg ns = Inr None)
    \<and> (tg \<noteq> ''*'' \<and> iter n st root (Some tg) = Some (Inr (ys, ls')) \<longrightarrow> ys = [])"
proof (intro conjI impI)
  show "(\<exists>b. match e tg ns = Inr (Some b)) \<longleftrightarrow> (\<exists>s. ns = Some s \<and> s \<noteq> [])"
    using assms by (cases tg) (auto simp: match_def split: option.splits)
  show "match e tg ns = Inr None" if "ns = None \<or> ns = Some []"
    using assms that by (cases tg) (auto simp: match_def)
  show "ys = []" if "tg \<noteq> ''*'' \<and> iter n st root (Some tg) = Some (Inr (ys, ls'))"
    using that unqualified_yields_nothing(1) [OF assms, of n st "Some tg" root "[]" ys ls']
    by (auto simp: iter_def)
qed

theorem unqualified_match_needs_default_namespace_witness:
  "''x'' \<noteq> [] \<and> hd ''x'' \<noteq> CHR ''{''
   \<and> match (leaf\<lparr>tag := ''x''\<rparr>) ''x'' None = Inr None
   \<and> iter 1 (\<lambda>_. leaf\<lparr>tag := ''x''\<rparr>) 0 (Some ''x'') = Some (Inr ([], []))"
proof -
  have a: "''x'' \<noteq> []" and b: "hd ''x'' \<noteq> CHR ''{''" by simp_all
  have "iter 1 (\<lambda>_. leaf\<lparr>tag := ''x''\<rparr>) 0 (Some ''x'') = Some (Inr ([], []))"
    by code_simp
  then show ?thesis
    using unqualified_match_needs_default_namespace
      [OF a b, of "leaf\<lparr>tag := ''x''\<rparr>" None 1 "\<lambda>_. leaf\<lparr>tag := ''x''\<rparr>" 0 "[]" "[]"]
    by simp
qed

text \<open>The empty tag has no first character: \<^verbatim>\<open>tag[0]\<close> raises instead of returning.\<close>

theorem match_empty_tag_raises:
  "match leaf [] None = Inl IndexError \<and> match leaf [] None \<noteq> Inr None"
  by (simp add: match_def)

section \<open>The registry\<close>

lemma fresh_Nil [simp]: "fresh st ls []"
  by (simp add: fresh_def)

lemma fresh_append:
  "fresh st ls n1 \<Longrightarrow> fresh st (ls @ n1) n2 \<Longrightarrow> fresh st ls (n1 @ n2)"
  by (auto simp: fresh_def)

lemma fresh_Cons:
  "c \<notin> set ls \<Longrightarrow> \<not> is_global (st c) \<Longrightarrow> ref (st c) = None \<Longrightarrow> fresh st (ls @ [c]) n1
     \<Longrightarrow> fresh st ls (c # n1)"
  by (auto simp: fresh_def)

lemma registry_grows:
  shows "safe_iter n st tg elem ls = Some (Inr (xs, ls')) \<Longrightarrow> \<exists>new. ls' = ls @ new \<and> fresh st ls new"
    and "safe_iter_children n st tg elem cs ls = Some (Inr (xs, ls'))
           \<Longrightarrow> \<exists>new. ls' = ls @ new \<and> fresh st ls new"
proof (induction n st tg elem ls and n st tg elem cs ls arbitrary: xs ls' and xs ls'
    rule: safe_iter_safe_iter_children.induct)
  case (1 st tg elem ls)
  then show ?case by simp
next
  case (2 n st tg elem ls)
  then show ?case by (auto simp: run_simps)
next
  case (3 n st tg elem ls)
  then show ?case by (simp add: run_simps)
next
  case (4 n st tg elem child rest ls)
  show ?case
  proof (cases "is_global (st child)")
    case True
    with "4.prems" obtain ys ls1 zs where
      a: "safe_iter n st tg child ls = Some (Inr (ys, ls1))" and
      b: "safe_iter_children n st tg elem rest ls1 = Some (Inr (zs, ls'))"
      by (auto simp: run_simps)
    from "4.IH"(1) [OF True a] obtain n1 where n1: "ls1 = ls @ n1" "fresh st ls n1" by blast
    from "4.IH"(2) [OF True b] obtain n2 where n2: "ls' = ls1 @ n2" "fresh st ls1 n2" by blast
    from n1 n2 show ?thesis using fresh_append by auto
  next
    case notglobal: False
    show ?thesis
    proof (cases "ref (st child) \<noteq> None")
      case True
      with notglobal "4.prems" "4.IH"(3) show ?thesis by (auto simp: run_simps)
    next
      case noref: False
      show ?thesis
      proof (cases "child \<in> set ls")
        case True
        with notglobal noref "4.prems" "4.IH"(6) show ?thesis by auto
      next
        case False
        with notglobal noref "4.prems" obtain ys ls1 zs where
          a: "safe_iter n st tg child (ls @ [child]) = Some (Inr (ys, ls1))" and
          b: "safe_iter_children n st tg elem rest ls1 = Some (Inr (zs, ls'))"
          by (auto simp: run_simps)
        from "4.IH"(4) [OF notglobal noref False a] obtain n1 where
          n1: "ls1 = (ls @ [child]) @ n1" "fresh st (ls @ [child]) n1" by blast
        from "4.IH"(5) [OF notglobal noref False b] obtain n2 where
          n2: "ls' = ls1 @ n2" "fresh st ls1 n2" by blast
        from noref have nr: "ref (st child) = None" by simp
        from fresh_Cons [OF False notglobal nr n1(2)] have "fresh st ls (child # n1)" .
        moreover from n1(1) have "ls1 = ls @ (child # n1)" by simp
        ultimately have "fresh st ls ((child # n1) @ n2)" using n2(2) fresh_append by metis
        with n1 n2 show ?thesis by auto
      qed
    qed
  qed
qed


lemma local_count:
  shows "safe_iter n st tg elem ls = Some (Inr (xs, ls')) \<Longrightarrow> tg = None \<Longrightarrow>
           \<not> is_global (st c) \<Longrightarrow> ref (st c) = None \<Longrightarrow>
           count_list xs (Elem c)
             = (if c \<in> set ls' \<and> c \<notin> set ls then 1 else 0) + (if c = elem then 1 else 0)"
    and "safe_iter_children n st tg elem cs ls = Some (Inr (xs, ls')) \<Longrightarrow> tg = None \<Longrightarrow>
           \<not> is_global (st c) \<Longrightarrow> ref (st c) = None \<Longrightarrow>
           count_list xs (Elem c) = (if c \<in> set ls' \<and> c \<notin> set ls then 1 else 0)"
proof (induction n st tg elem ls and n st tg elem cs ls arbitrary: xs ls' and xs ls'
    rule: safe_iter_safe_iter_children.induct)
  case (1 st tg elem ls)
  then show ?case by simp
next
  case (2 n st tg elem ls)
  then show ?case by (auto simp: run_simps)
next
  case (3 n st tg elem ls)
  then show ?case by (simp add: run_simps)
next
  case (4 n st tg elem child rest ls)
  note tg = "4.prems"(2) and c = "4.prems"(3,4)
  show ?case
  proof (cases "is_global (st child)")
    case True
    with "4.prems" obtain ys ls1 zs where
      a: "safe_iter n st tg child ls = Some (Inr (ys, ls1))" and
      b: "safe_iter_children n st tg elem rest ls1 = Some (Inr (zs, ls'))" and
      xs: "xs = ys @ zs"
      by (auto simp: run_simps)
    from registry_grows(1) [OF a] obtain n1 where n1: "ls1 = ls @ n1" "fresh st ls n1" by blast
    from registry_grows(2) [OF b] obtain n2 where n2: "ls' = ls1 @ n2" "fresh st ls1 n2" by blast
    from True c have ne: "c \<noteq> child" by auto
    from "4.IH"(1) [OF True a tg c] "4.IH"(2) [OF True b tg c] ne xs n1 n2
    show ?thesis by (auto simp: fresh_def)
  next
    case notglobal: False
    show ?thesis
    proof (cases "ref (st child) \<noteq> None")
      case True
      with c have ne: "c \<noteq> child" by auto
      from True notglobal "4.prems" "4.IH"(3) ne show ?thesis by (auto simp: run_simps)
    next
      case noref: False
      show ?thesis
      proof (cases "child \<in> set ls")
        case True
        with notglobal noref "4.prems" "4.IH"(6) show ?thesis by auto
      next
        case False
        with notglobal noref "4.prems" obtain ys ls1 zs where
          a: "safe_iter n st tg child (ls @ [child]) = Some (Inr (ys, ls1))" and
          b: "safe_iter_children n st tg elem rest ls1 = Some (Inr (zs, ls'))" and
          xs: "xs = ys @ zs"
          by (auto simp: run_simps)
        from registry_grows(1) [OF a] obtain n1 where
          n1: "ls1 = (ls @ [child]) @ n1" "fresh st (ls @ [child]) n1" by blast
        from registry_grows(2) [OF b] obtain n2 where
          n2: "ls' = ls1 @ n2" "fresh st ls1 n2" by blast
        from "4.IH"(4) [OF notglobal noref False a tg c]
          "4.IH"(5) [OF notglobal noref False b tg c] xs n1 n2 False
        show ?thesis by (auto simp: fresh_def)
      qed
    qed
  qed
qed

section \<open>The three walkers yield the same nodes\<close>

lemma only_elems_and_then:
  "only_elems (and_then m k) = and_then (only_elems m) (\<lambda>ls. only_elems (k ls))"
  by (auto simp: only_elems_def and_then_def split: option.splits sum.splits)

lemma only_elems_emit: "only_elems (emit xs ls) = emit (filter is_Elem xs) ls"
  by (simp add: only_elems_def emit_def)

lemma filter_is_Elem_text_items [simp]: "filter is_Elem (text_items e) = []"
  by (simp add: text_items_def split: option.splits)

lemma filter_is_Elem_Attr [simp]: "filter is_Elem (map Attr ps) = []"
  by (induction ps) auto

lemma yield_if_True: "yield_if (Inr True) x ls = emit [x] ls"
  by (simp add: yield_if_def)

lemma and_then_cong:
  "m = m' \<Longrightarrow> (\<And>ls. k ls = k' ls) \<Longrightarrow> and_then m k = and_then m' k'"
  by (simp add: and_then_def split: option.splits sum.splits prod.splits)

lemma context_elems:
  shows "tg = None \<Longrightarrow> safe_iter n st tg elem ls = only_elems (safe_iter_context n st elem ls)"
    and "tg = None \<Longrightarrow>
           safe_iter_children n st tg elem cs ls = only_elems (context_children n st cs ls)"
proof (induction n st tg elem ls and n st tg elem cs ls
    rule: safe_iter_safe_iter_children.induct)
  case (1 st tg elem ls)
  then show ?case by (simp add: only_elems_def)
next
  case (2 n st tg elem ls)
  then show ?case
    by (auto simp: only_elems_and_then only_elems_emit yield_if_True intro!: and_then_cong)
next
  case (3 n st tg elem ls)
  then show ?case by (simp add: only_elems_emit)
next
  case (4 n st tg elem child rest ls)
  then show ?case
    by (auto simp: only_elems_and_then only_elems_emit yield_if_True intro!: and_then_cong)
qed

lemma descendants_elems:
  shows "tg = None \<Longrightarrow>
           safe_iter n st tg elem ls = only_elems (safe_iter_descendants n st elem ls)"
    and "tg = None \<Longrightarrow>
           safe_iter_children n st tg elem cs ls = only_elems (descendants_children n st cs ls)"
proof (induction n st tg elem ls and n st tg elem cs ls
    rule: safe_iter_safe_iter_children.induct)
  case (1 st tg elem ls)
  then show ?case by (simp add: only_elems_def)
next
  case (2 n st tg elem ls)
  then show ?case
    by (auto simp: only_elems_and_then only_elems_emit yield_if_True intro!: and_then_cong)
next
  case (3 n st tg elem ls)
  then show ?case by (simp add: only_elems_emit)
next
  case (4 n st tg elem child rest ls)
  then show ?case
    by (auto simp: only_elems_and_then only_elems_emit yield_if_True intro!: and_then_cong)
qed

section \<open>Termination\<close>



lemma unregistered_mono:
  "set ls \<subseteq> set ls1 \<Longrightarrow> card ({..<N} - set ls1) \<le> card ({..<N::nat} - set ls)"
  by (rule card_mono) auto

lemma unregistered_less:
  assumes "c < N" and "c \<notin> set ls"
  shows "card ({..<N} - set (ls @ [c])) < card ({..<N::nat} - set ls)"
proof (rule psubset_card_mono)
  show "finite ({..<N} - set ls)" by simp
  show "{..<N} - set (ls @ [c]) \<subset> {..<N} - set ls" using assms by auto
qed

lemma fuel_step:
  assumes "u1 < (u::nat)" and "r \<le> R"
  shows "u1 * (R + 1) + r < u * (R + 1)"
proof -
  from assms(1) have "Suc u1 \<le> u" by simp
  then have "Suc u1 * (R + 1) \<le> u * (R + 1)" by (rule mult_le_mono1)
  with assms(2) show ?thesis by simp
qed

lemma safe_iter_returns:
  shows "closed_store st N \<Longrightarrow> global_ranked st N rk R \<Longrightarrow> elem < N \<Longrightarrow>
           card ({..<N} - set ls) * (R + 1) + rk elem < n \<Longrightarrow>
           safe_iter n st tg elem ls \<noteq> None"
    and "closed_store st N \<Longrightarrow> global_ranked st N rk R \<Longrightarrow> elem < N \<Longrightarrow>
           set cs \<subseteq> set (children (st elem)) \<Longrightarrow>
           card ({..<N} - set ls) * (R + 1) + rk elem \<le> n \<Longrightarrow>
           safe_iter_children n st tg elem cs ls \<noteq> None"
proof (induction n st tg elem ls and n st tg elem cs ls
    rule: safe_iter_safe_iter_children.induct)
  case (1 st tg elem ls)
  then show ?case by simp
next
  case (2 n st tg elem ls)
  have "safe_iter_children n st tg elem (children (st elem)) ls1 \<noteq> None"
    if "ls1 = ls" for ls1
    using "2.IH" [of ls1] "2.prems" that by simp
  then show ?case
    by (auto simp: and_then_eq_None yield_if_def raise_def emit_def split: sum.splits)
next
  case (3 n st tg elem ls)
  then show ?case by (simp add: emit_def)
next
  case (4 n st tg elem child rest ls)
  note cl = "4.prems"(1) and rk = "4.prems"(2) and el = "4.prems"(3)
  from "4.prems"(4) have child: "child \<in> set (children (st elem))"
    and rest: "set rest \<subseteq> set (children (st elem))" by auto
  from cl el child have childN: "child < N" by (auto simp: closed_store_def)
  from rk childN have rkchild: "rk child \<le> R" by (auto simp: global_ranked_def)
  let ?u = "\<lambda>l. card ({..<N} - set l)"
  have later: "safe_iter_children n st tg elem rest ls1 \<noteq> None"
    if ih: "\<And>ls1. ?u ls1 * (R + 1) + rk elem \<le> n
              \<Longrightarrow> safe_iter_children n st tg elem rest ls1 \<noteq> None"
      and sub: "set ls \<subseteq> set ls1" for ls1
  proof -
    from unregistered_mono [OF sub] have "?u ls1 * (R + 1) \<le> ?u ls * (R + 1)"
      by (rule mult_le_mono1)
    with "4.prems"(5) have "?u ls1 * (R + 1) + rk elem \<le> n" by simp
    then show ?thesis by (rule ih)
  qed
  show ?case
  proof (cases "is_global (st child)")
    case True
    from rk el child True have "rk child < rk elem" by (auto simp: global_ranked_def)
    with "4.prems"(5) have "?u ls * (R + 1) + rk child < n" by simp
    from "4.IH"(1) [OF True cl rk childN this]
    have a: "safe_iter n st tg child ls \<noteq> None" .
    have b: "safe_iter_children n st tg elem rest ls1 \<noteq> None"
      if "safe_iter n st tg child ls = Some (Inr (ys, ls1))" for ys ls1
    proof (rule later)
      show "safe_iter_children n st tg elem rest l \<noteq> None"
        if "?u l * (R + 1) + rk elem \<le> n" for l
        using "4.IH"(2) [OF True cl rk el rest that] .
      from registry_grows(1) [OF that] show "set ls \<subseteq> set ls1" by auto
    qed
    from True a b show ?thesis by (auto simp: and_then_eq_None)
  next
    case notglobal: False
    show ?thesis
    proof (cases "ref (st child) \<noteq> None")
      case True
      have "safe_iter_children n st tg elem rest ls \<noteq> None"
        using "4.IH"(3) [OF notglobal True cl rk el rest "4.prems"(5)] .
      with notglobal True show ?thesis
        by (auto simp: and_then_eq_None yield_if_def raise_def emit_def split: sum.splits)
    next
      case noref: False
      show ?thesis
      proof (cases "child \<in> set ls")
        case True
        with notglobal noref "4.IH"(6) [OF notglobal noref _ cl rk el rest "4.prems"(5)]
        show ?thesis by simp
      next
        case False
        from fuel_step [OF unregistered_less [OF childN False] rkchild] "4.prems"(5)
        have "?u (ls @ [child]) * (R + 1) + rk child < n" by simp
        from "4.IH"(4) [OF notglobal noref False cl rk childN this]
        have a: "safe_iter n st tg child (ls @ [child]) \<noteq> None" .
        have b: "safe_iter_children n st tg elem rest ls1 \<noteq> None"
          if "safe_iter n st tg child (ls @ [child]) = Some (Inr (ys, ls1))" for ys ls1
        proof (rule later)
          show "safe_iter_children n st tg elem rest l \<noteq> None"
            if "?u l * (R + 1) + rk elem \<le> n" for l
            using "4.IH"(5) [OF notglobal noref False cl rk el rest that] .
          from registry_grows(1) [OF that] show "set ls \<subseteq> set ls1" by auto
        qed
        from notglobal noref False a b show ?thesis by (auto simp: and_then_eq_None)
      qed
    qed
  qed
qed

lemma tag_test_total: "tg \<noteq> Some [] \<Longrightarrow> \<exists>b. tag_test tg e = Inr b"
  by (auto simp: tag_test_def match_def split: option.splits list.splits)

lemma yield_if_no_raise: "t = Inr b \<Longrightarrow> yield_if t x ls \<noteq> Some (Inl e)"
  by (simp add: yield_if_def emit_def)

lemma safe_iter_no_raise:
  shows "tg \<noteq> Some [] \<Longrightarrow> safe_iter n st tg elem ls \<noteq> Some (Inl e)"
    and "tg \<noteq> Some [] \<Longrightarrow> safe_iter_children n st tg elem cs ls \<noteq> Some (Inl e)"
proof (induction n st tg elem ls and n st tg elem cs ls
    rule: safe_iter_safe_iter_children.induct)
  case (1 st tg elem ls)
  then show ?case by simp
next
  case (2 n st tg elem ls)
  from tag_test_total [OF "2.prems"] obtain b where "tag_test tg (st elem) = Inr b" by blast
  with "2.IH" "2.prems" show ?case
    by (auto simp: and_then_eq_Inl yield_if_def emit_def)
next
  case (3 n st tg elem ls)
  then show ?case by (simp add: emit_def)
next
  case (4 n st tg elem child rest ls)
  from tag_test_total [OF "4.prems"] obtain b where "tag_test tg (st elem) = Inr b" by blast
  with "4.IH" "4.prems" show ?case
    by (auto simp: and_then_eq_Inl yield_if_def emit_def)
qed

lemma only_elems_eq_None [simp]: "only_elems w = None \<longleftrightarrow> w = None"
  by (auto simp: only_elems_def split: option.splits sum.splits)

lemma only_elems_eq_Inl [simp]: "only_elems w = Some (Inl e) \<longleftrightarrow> w = Some (Inl e)"
  by (auto simp: only_elems_def split: option.splits sum.splits)

lemma only_elems_eq_Inr:
  "only_elems w = Some (Inr (ys, ls')) \<longleftrightarrow>
     (\<exists>xs. w = Some (Inr (xs, ls')) \<and> ys = filter is_Elem xs)"
  by (auto simp: only_elems_def split: option.splits sum.splits)

lemma safe_iter_context_no_raise: "safe_iter_context n st elem ls \<noteq> Some (Inl e)"
  using safe_iter_no_raise(1) [of None n st elem ls e] context_elems(1) [of None n st elem ls]
  by auto

lemma safe_iter_descendants_no_raise: "safe_iter_descendants n st elem ls \<noteq> Some (Inl e)"
  using safe_iter_no_raise(1) [of None n st elem ls e]
    descendants_elems(1) [of None n st elem ls]
  by auto

lemma returns_Inr:
  "w \<noteq> None \<Longrightarrow> (\<And>e. w \<noteq> Some (Inl e)) \<Longrightarrow> \<exists>xs ls'. w = Some (Inr (xs, ls'))"
proof -
  assume "w \<noteq> None" and noraise: "\<And>e. w \<noteq> Some (Inl e)"
  then obtain a where w: "w = Some a" by auto
  show ?thesis
  proof (cases a)
    case (Inl e)
    with w noraise show ?thesis by simp
  next
    case (Inr p)
    with w show ?thesis by (cases p) simp
  qed
qed

lemma loop_store_diverges: "safe_iter n loop_store None 0 ls = None"
proof (induction n arbitrary: ls)
  case 0
  then show ?case by simp
next
  case (Suc n)
  then show ?case
    by (cases n) (simp_all add: loop_store_def leaf_def yield_if_def emit_def and_then_def)
qed


text \<open>
  C2, as the code has it. Take a finite store (the first \<open>N\<close> handles, closed under
  children) in which some ranking of the nodes strictly decreases from every node to each
  of its global children, so that no cycle of child links runs through global nodes only.
  Then every walk from a node of the store returns once the depth bound is large enough:
  \<^verbatim>\<open>iter\<close> returns or raises (it raises only on the empty tag), and the two context
  walks return a finite list of items. Cycles through ordinary local nodes, references
  to anything, and nodes flagged both global and reference are all allowed.
\<close>

theorem walks_return_without_global_cycles:
  assumes "closed_store st N" and "global_ranked st N rk R" and "root < N"
    and "(N + 1) * (R + 1) \<le> fuel"
  shows "iter fuel st root tg \<noteq> None
    \<and> (tg \<noteq> Some [] \<longrightarrow> (\<exists>xs ls'. iter fuel st root tg = Some (Inr (xs, ls'))))
    \<and> (\<exists>xs ls'. iter_descendants fuel st root = Some (Inr (xs, ls')))
    \<and> (\<exists>xs ls'. iter_context fuel st root = Some (Inr (xs, ls')))"
proof -
  from assms(2,3) have "rk root \<le> R" by (auto simp: global_ranked_def)
  with assms(4) have fuel: "card ({..<N} - set []) * (R + 1) + rk root < fuel" by simp
  have ret: "safe_iter fuel st tg' root [] \<noteq> None" for tg'
    using safe_iter_returns(1) [OF assms(1,2,3) fuel] .
  have a: "iter fuel st root tg \<noteq> None"
    using ret by (simp add: iter_def)
  have b: "\<exists>xs ls'. iter fuel st root tg = Some (Inr (xs, ls'))" if "tg \<noteq> Some []"
  proof (rule returns_Inr [OF a])
    from that have "(if tg = Some ''*'' then None else tg) \<noteq> Some []" by simp
    from safe_iter_no_raise(1) [OF this]
    show "iter fuel st root tg \<noteq> Some (Inl e)" for e by (simp add: iter_def)
  qed
  have c: "\<exists>xs ls'. iter_descendants fuel st root = Some (Inr (xs, ls'))"
    unfolding iter_descendants_def
  proof (rule returns_Inr)
    from ret [of None] descendants_elems(1) [of None fuel st root "[]"]
    show "safe_iter_descendants fuel st root [] \<noteq> None" by auto
  qed (rule safe_iter_descendants_no_raise)
  have d: "\<exists>xs ls'. iter_context fuel st root = Some (Inr (xs, ls'))"
    unfolding iter_context_def
  proof (rule returns_Inr)
    from ret [of None] context_elems(1) [of None fuel st root "[]"]
    show "safe_iter_context fuel st root [] \<noteq> None" by auto
  qed (rule safe_iter_context_no_raise)
  from a b c d show ?thesis by blast
qed


theorem walks_return_without_global_cycles_witness:
  "closed_store cycle_store 2 \<and> global_ranked cycle_store 2 (\<lambda>h. h) 1
   \<and> (0::nat) < 2 \<and> (2 + 1) * (1 + 1) \<le> (6::nat)
   \<and> iter 6 cycle_store 0 None = Some (Inr ([Elem 0, Elem 1, Elem 0], [1]))
   \<and> (\<exists>xs ls'. iter_descendants 6 cycle_store 0 = Some (Inr (xs, ls')))
   \<and> (\<exists>xs ls'. iter_context 6 cycle_store 0 = Some (Inr (xs, ls')))"
proof -
  have h1: "closed_store cycle_store 2" by code_simp
  have h2: "global_ranked cycle_store 2 (\<lambda>h. h) 1" by code_simp
  have h3: "(0::nat) < 2" by simp
  have h4: "(2 + 1) * (1 + 1) \<le> (6::nat)" by simp
  have r: "iter 6 cycle_store 0 None = Some (Inr ([Elem 0, Elem 1, Elem 0], [1]))"
    by code_simp
  from walks_return_without_global_cycles [OF h1 h2 h3 h4, of None] h1 h2 r
  show ?thesis by simp
qed

text \<open>
  A global node that is its own child: the global branch recurses with the registry
  unchanged, so no depth bound is ever enough and the walk returns for no amount of fuel
  (in CPython the nested generators end in a RecursionError).
\<close>

theorem global_self_child_never_returns:
  "closed_store loop_store 1 \<and> \<not> (\<exists>fuel r. iter fuel loop_store 0 None = Some r)"
proof
  show "closed_store loop_store 1"
    by (simp add: closed_store_def loop_store_def leaf_def)
  show "\<not> (\<exists>fuel r. iter fuel loop_store 0 None = Some r)"
    by (simp add: iter_def loop_store_diverges)
qed

section \<open>Walking a tree without sharing\<close>



lemma height_member: "t \<in> set ts \<Longrightarrow> height t \<le> foldr max (map height ts) 0"
  by (induction ts) (auto simp: max_def)

lemma forest_walk:
  assumes tree: "\<And>t n ls. t \<in> set ts \<Longrightarrow> shaped st t \<Longrightarrow> distinct (preorder t) \<Longrightarrow>
      set (tl (preorder t)) \<inter> set ls = {} \<Longrightarrow> height t \<le> n \<Longrightarrow>
      safe_iter n st None (root_of t) ls
        = Some (Inr (map Elem (preorder t), ls @ tl (preorder t)))"
  shows "\<forall>t\<in>set ts. shaped st t \<Longrightarrow> distinct (concat (map preorder ts)) \<Longrightarrow>
      set (concat (map preorder ts)) \<inter> set ls = {} \<Longrightarrow> \<forall>t\<in>set ts. height t \<le> n \<Longrightarrow>
      safe_iter_children n st None elem (map root_of ts) ls
        = Some (Inr (map Elem (concat (map preorder ts)), ls @ concat (map preorder ts)))"
  using tree
proof (induction ts arbitrary: ls)
  case Nil
  then show ?case by (simp add: emit_def)
next
  case (Cons t ts)
  obtain h us where t: "t = LNode h us" by (cases t)
  from Cons.prems(1) t have loc: "\<not> is_global (st h)" "ref (st h) = None" by auto
  from Cons.prems(3) t have new: "h \<notin> set ls" by auto
  have "safe_iter n st None (root_of t) (ls @ [h])
          = Some (Inr (map Elem (preorder t), (ls @ [h]) @ tl (preorder t)))"
  proof (rule Cons.prems(5))
    show "t \<in> set (t # ts)" by simp
    from Cons.prems(1) show "shaped st t" by simp
    from Cons.prems(2) show "distinct (preorder t)" by simp
    from Cons.prems(2,3) t show "set (tl (preorder t)) \<inter> set (ls @ [h]) = {}" by auto
    from Cons.prems(4) show "height t \<le> n" by simp
  qed
  with t have a: "safe_iter n st None h (ls @ [h])
      = Some (Inr (map Elem (preorder t), ls @ preorder t))" by simp
  have b: "safe_iter_children n st None elem (map root_of ts) (ls @ preorder t)
      = Some (Inr (map Elem (concat (map preorder ts)),
                   (ls @ preorder t) @ concat (map preorder ts)))"
  proof (rule Cons.IH)
    from Cons.prems(1) show "\<forall>t\<in>set ts. shaped st t" by simp
    from Cons.prems(2) show "distinct (concat (map preorder ts))" by simp
    from Cons.prems(2,3) show "set (concat (map preorder ts)) \<inter> set (ls @ preorder t) = {}"
      by auto
    from Cons.prems(4) show "\<forall>t\<in>set ts. height t \<le> n" by simp
    show "safe_iter n st None (root_of u) l
            = Some (Inr (map Elem (preorder u), l @ tl (preorder u)))"
      if "u \<in> set ts" "shaped st u" "distinct (preorder u)"
        "set (tl (preorder u)) \<inter> set l = {}" "height u \<le> n" for u n l
      using Cons.prems(5) [of u l n] that by simp
  qed
  from t loc new a b show ?case by (simp add: and_then_def)
qed

lemma tree_walk:
  "shaped st t \<Longrightarrow> distinct (preorder t) \<Longrightarrow> set (tl (preorder t)) \<inter> set ls = {} \<Longrightarrow>
   height t \<le> n \<Longrightarrow>
   safe_iter n st None (root_of t) ls = Some (Inr (map Elem (preorder t), ls @ tl (preorder t)))"
proof (induction t arbitrary: n ls)
  case (LNode h ts)
  from LNode.prems(4) obtain m where n: "n = Suc m" and m: "foldr max (map height ts) 0 \<le> m"
    by (cases n) auto
  have "safe_iter_children m st None h (map root_of ts) ls
      = Some (Inr (map Elem (concat (map preorder ts)), ls @ concat (map preorder ts)))"
  proof (rule forest_walk)
    from LNode.prems(1) show "\<forall>t\<in>set ts. shaped st t" by simp
    from LNode.prems(2) show "distinct (concat (map preorder ts))" by simp
    from LNode.prems(3) show "set (concat (map preorder ts)) \<inter> set ls = {}" by simp
    from m height_member show "\<forall>t\<in>set ts. height t \<le> m" by (meson le_trans)
    show "safe_iter k st None (root_of u) l
            = Some (Inr (map Elem (preorder u), l @ tl (preorder u)))"
      if "u \<in> set ts" "shaped st u" "distinct (preorder u)"
        "set (tl (preorder u)) \<inter> set l = {}" "height u \<le> k" for u k l
      using LNode.IH that by simp
  qed
  with LNode.prems(1) n show ?case
    by (simp add: yield_if_def emit_def and_then_def)
qed

lemma forest_naive:
  assumes "\<And>t. t \<in> set ts \<Longrightarrow> naive_preorder n st (root_of t) = Some (preorder t)"
  shows "those (map (naive_preorder n st) (map root_of ts)) = Some (map preorder ts)"
  using assms by (induction ts) auto

lemma tree_naive:
  "shaped st t \<Longrightarrow> height t \<le> n \<Longrightarrow> naive_preorder n st (root_of t) = Some (preorder t)"
proof (induction t arbitrary: n)
  case (LNode h ts)
  from LNode.prems(2) obtain m where n: "n = Suc m" and m: "foldr max (map height ts) 0 \<le> m"
    by (cases n) auto
  have "those (map (naive_preorder m st) (map root_of ts)) = Some (map preorder ts)"
  proof (rule forest_naive)
    fix t assume t: "t \<in> set ts"
    with m height_member have "height t \<le> m" by (meson le_trans)
    with LNode.IH [OF t] LNode.prems(1) t
    show "naive_preorder m st (root_of t) = Some (preorder t)" by simp
  qed
  with LNode.prems(1) n show ?case by simp
qed

lemma length_preorder: "length (preorder t) = node_count t"
proof (induction t)
  case (LNode h ts)
  have "length (concat (map preorder ts)) = sum_list (map node_count ts)"
    using LNode.IH by (induction ts) auto
  then show ?case by simp
qed

text \<open>
  C7. Let the store hold a tree \<open>t\<close> (every node with exactly the listed children, none
  global, none a reference) whose handles are pairwise distinct, so that no node object is
  reached from two parents. Then the unfiltered walk from the root (no tag, or the
  wildcard) yields exactly the nodes of the tree in the order of the naive recursive
  pre-order traversal, and as many items as the tree has nodes.
\<close>

theorem walker_refines_naive_preorder:
  assumes "shaped st t" and "distinct (preorder t)" and "height t \<le> fuel"
  shows "naive_preorder fuel st (root_of t) = Some (preorder t)
    \<and> iter fuel st (root_of t) None = Some (Inr (map Elem (preorder t), tl (preorder t)))
    \<and> iter fuel st (root_of t) (Some ''*'')
        = Some (Inr (map Elem (preorder t), tl (preorder t)))
    \<and> length (map Elem (preorder t)) = node_count t"
  using tree_naive [OF assms(1,3)] tree_walk [OF assms(1,2) _ assms(3), of "[]"]
  by (simp add: iter_def length_preorder)

theorem walker_refines_naive_preorder_witness:
  "shaped small_store small_tree \<and> distinct (preorder small_tree) \<and> height small_tree \<le> 2
   \<and> naive_preorder 2 small_store 0 = Some [0, 1, 2]
   \<and> iter 2 small_store 0 None = Some (Inr ([Elem 0, Elem 1, Elem 2], [1, 2]))
   \<and> node_count small_tree = 3"
proof -
  have h1: "shaped small_store small_tree" by code_simp
  have h2: "distinct (preorder small_tree)" by code_simp
  have h3: "height small_tree \<le> 2" by code_simp
  have p: "preorder small_tree = [0, 1, 2]" "root_of small_tree = 0"
    by (simp_all add: small_tree_def)
  from walker_refines_naive_preorder [OF h1 h2 h3] h1 h2 h3 p show ?thesis by simp
qed

section \<open>What the walks yield\<close>

lemma safe_iter_only_nodes:
  shows "safe_iter n st tg elem ls = Some (Inr (xs, ls')) \<Longrightarrow> x \<in> set xs \<Longrightarrow> is_Elem x"
    and "safe_iter_children n st tg elem cs ls = Some (Inr (xs, ls')) \<Longrightarrow> x \<in> set xs \<Longrightarrow> is_Elem x"
proof (induction n st tg elem ls and n st tg elem cs ls arbitrary: xs ls' and xs ls'
    rule: safe_iter_safe_iter_children.induct)
  case (1 st tg elem ls)
  then show ?case by simp
next
  case (2 n st tg elem ls)
  then show ?case by (auto simp: run_simps split: if_splits)
next
  case (3 n st tg elem ls)
  then show ?case by (simp add: run_simps)
next
  case (4 n st tg elem child rest ls)
  then show ?case by (auto simp: run_simps split: if_splits)
qed

lemma text_items_no_Attr: "x \<in> set (text_items e) \<Longrightarrow> \<not> is_Attr x"
  by (auto simp: text_items_def split: option.splits)

lemma descendants_no_attributes:
  shows "safe_iter_descendants n st elem ls = Some (Inr (xs, ls')) \<Longrightarrow> x \<in> set xs \<Longrightarrow> \<not> is_Attr x"
    and "descendants_children n st cs ls = Some (Inr (xs, ls')) \<Longrightarrow> x \<in> set xs \<Longrightarrow> \<not> is_Attr x"
proof (induction n st elem ls and n st cs ls arbitrary: xs ls' and xs ls'
    rule: safe_iter_descendants_descendants_children.induct)
  case (1 st elem ls)
  then show ?case by simp
next
  case (2 n st elem ls)
  then show ?case using text_items_no_Attr by (auto simp: run_simps)
next
  case (3 n st ls)
  then show ?case by (simp add: run_simps)
next
  case (4 n st child rest ls)
  then show ?case by (auto simp: run_simps split: if_splits)
qed


lemma safe_iter_descendants_head:
  assumes "safe_iter_descendants n st elem ls = Some (Inr (xs, ls'))"
  shows "\<exists>m zs. n = Suc m
           \<and> descendants_children m st (children (st elem)) ls = Some (Inr (zs, ls'))
           \<and> xs = [Elem elem] @ (case elem_text (st elem) of None \<Rightarrow> [] | Some t \<Rightarrow> [Text t]) @ zs"
  using assms by (cases n) (auto simp: run_simps text_items_def)

text \<open>
  C8. The plain node iteration \<^verbatim>\<open>iter\<close> yields nodes only: for every store, every
  starting node, every tag filter and every depth, each item of its output is a node, and
  so no item is the text string of a node (or any other string).
\<close>

theorem iter_yields_only_nodes:
  "iter n st root tg = Some (Inr (xs, ls')) \<longrightarrow> (\<forall>x\<in>set xs. is_Elem x) \<and> Text s \<notin> set xs"
proof
  assume "iter n st root tg = Some (Inr (xs, ls'))"
  then have run: "safe_iter n st (if tg = Some ''*'' then None else tg) root []
      = Some (Inr (xs, ls'))"
    by (simp add: iter_def)
  have *: "\<forall>x\<in>set xs. is_Elem x"
    using safe_iter_only_nodes(1) [OF run] by blast
  then have "Text s \<notin> set xs" by auto
  with * show "(\<forall>x\<in>set xs. is_Elem x) \<and> Text s \<notin> set xs" by simp
qed

theorem iter_yields_only_nodes_witness:
  "elem_text (text_store 0) = Some ''hello''
   \<and> iter 3 text_store 0 None = Some (Inr ([Elem 0, Elem 2, Elem 1, Elem 2], [1]))
   \<and> Text ''hello'' \<notin> set [Elem 0, Elem 2, Elem 1, Elem 2]
   \<and> list_all is_Elem [Elem 0, Elem 2, Elem 1, Elem 2]"
proof -
  have a: "iter 3 text_store 0 None = Some (Inr ([Elem 0, Elem 2, Elem 1, Elem 2], [1]))"
    by code_simp
  have b: "elem_text (text_store 0) = Some ''hello''" by code_simp
  from iter_yields_only_nodes
    [of 3 text_store 0 None "[Elem 0, Elem 2, Elem 1, Elem 2]" "[1]" "''hello''"] a
  have "(\<forall>x\<in>set [Elem 0, Elem 2, Elem 1, Elem 2]. is_Elem x)
      \<and> Text ''hello'' \<notin> set [Elem 0, Elem 2, Elem 1, Elem 2]"
    by blast
  with a b show ?thesis by (simp add: list_all_iff)
qed

text \<open>
  For comparison, the descendant walk of the selector context,
  \<^verbatim>\<open>ElementPathContext._iter_descendants\<close>, yields each node it enters followed by the
  text of the node when that is not \<^verbatim>\<open>None\<close>, and never an attribute pair.
\<close>

lemma descendants_yield_nodes_and_text:
  assumes "safe_iter_descendants n st elem ls = Some (Inr (ys, ls''))"
  shows "(\<forall>y\<in>set ys. \<not> is_Attr y)
    \<and> (\<exists>zs. ys = [Elem elem]
           @ (case elem_text (st elem) of None \<Rightarrow> [] | Some t \<Rightarrow> [Text t]) @ zs)"
  using descendants_no_attributes(1) [OF assms] safe_iter_descendants_head [OF assms]
  by blast

lemma iter_descendants_on_text_store:
  "iter_descendants 3 text_store 0
     = Some (Inr ([Elem 0, Text ''hello'', Elem 2, Elem 1, Elem 2], [1]))"
  by code_simp

lemma and_then_assoc:
  "and_then (and_then m k1) k2 = and_then m (\<lambda>ls. and_then (k1 ls) k2)"
  by (auto simp: and_then_def split: option.splits sum.splits)

lemma and_then_emit_Nil [simp]: "and_then (emit [] ls) k = k ls"
  by (auto simp: and_then_def emit_def split: option.splits sum.splits)

lemma context_children_append:
  "context_children m st (cs1 @ cs2) ls
     = and_then (context_children m st cs1 ls) (\<lambda>ls1. context_children m st cs2 ls1)"
proof (induction cs1 arbitrary: ls)
  case Nil
  show ?case by simp
next
  case (Cons c cs1)
  have ih: "context_children m st (cs1 @ cs2)
      = (\<lambda>ls. and_then (context_children m st cs1 ls) (context_children m st cs2))"
    by (rule ext) (rule Cons.IH)
  show ?case
    by (simp add: and_then_assoc ih)
qed

lemma safe_iter_context_head:
  assumes "safe_iter_context n st elem ls = Some (Inr (xs, ls'))"
  shows "\<exists>m zs. n = Suc m
           \<and> context_children m st (children (st elem)) ls = Some (Inr (zs, ls'))
           \<and> xs = [Elem elem] @ (case elem_text (st elem) of None \<Rightarrow> [] | Some t \<Rightarrow> [Text t])
                    @ map Attr (attrib (st elem)) @ zs"
  using assms by (cases n) (auto simp: run_simps text_items_def)

lemma forest_context:
  assumes tree: "\<And>t n ls. t \<in> set ts \<Longrightarrow> shaped st t \<Longrightarrow> distinct (preorder t) \<Longrightarrow>
      set (tl (preorder t)) \<inter> set ls = {} \<Longrightarrow> height t \<le> n \<Longrightarrow>
      safe_iter_context n st (root_of t) ls
        = Some (Inr (context_order st t, ls @ tl (preorder t)))"
  shows "\<forall>t\<in>set ts. shaped st t \<Longrightarrow> distinct (concat (map preorder ts)) \<Longrightarrow>
      set (concat (map preorder ts)) \<inter> set ls = {} \<Longrightarrow> \<forall>t\<in>set ts. height t \<le> n \<Longrightarrow>
      context_children n st (map root_of ts) ls
        = Some (Inr (concat (map (context_order st) ts), ls @ concat (map preorder ts)))"
  using tree
proof (induction ts arbitrary: ls)
  case Nil
  then show ?case by (simp add: emit_def)
next
  case (Cons t ts)
  obtain h us where t: "t = LNode h us" by (cases t)
  from Cons.prems(1) t have loc: "\<not> is_global (st h)" "ref (st h) = None" by auto
  from Cons.prems(3) t have new: "h \<notin> set ls" by auto
  have "safe_iter_context n st (root_of t) (ls @ [h])
          = Some (Inr (context_order st t, (ls @ [h]) @ tl (preorder t)))"
  proof (rule Cons.prems(5))
    show "t \<in> set (t # ts)" by simp
    from Cons.prems(1) show "shaped st t" by simp
    from Cons.prems(2) show "distinct (preorder t)" by simp
    from Cons.prems(2,3) t show "set (tl (preorder t)) \<inter> set (ls @ [h]) = {}" by auto
    from Cons.prems(4) show "height t \<le> n" by simp
  qed
  with t have a: "safe_iter_context n st h (ls @ [h])
      = Some (Inr (context_order st t, ls @ preorder t))" by simp
  have b: "context_children n st (map root_of ts) (ls @ preorder t)
      = Some (Inr (concat (map (context_order st) ts),
                   (ls @ preorder t) @ concat (map preorder ts)))"
  proof (rule Cons.IH)
    from Cons.prems(1) show "\<forall>t\<in>set ts. shaped st t" by simp
    from Cons.prems(2) show "distinct (concat (map preorder ts))" by simp
    from Cons.prems(2,3) show "set (concat (map preorder ts)) \<inter> set (ls @ preorder t) = {}"
      by auto
    from Cons.prems(4) show "\<forall>t\<in>set ts. height t \<le> n" by simp
    show "safe_iter_context n st (root_of u) l
            = Some (Inr (context_order st u, l @ tl (preorder u)))"
      if "u \<in> set ts" "shaped st u" "distinct (preorder u)"
        "set (tl (preorder u)) \<inter> set l = {}" "height u \<le> n" for u n l
      using Cons.prems(5) [of u l n] that by simp
  qed
  from loc new a b show ?case unfolding t by (simp add: and_then_def del: context_order.simps)
qed

lemma tree_context:
  "shaped st t \<Longrightarrow> distinct (preorder t) \<Longrightarrow> set (tl (preorder t)) \<inter> set ls = {} \<Longrightarrow>
   height t \<le> n \<Longrightarrow>
   safe_iter_context n st (root_of t) ls = Some (Inr (context_order st t, ls @ tl (preorder t)))"
proof (induction t arbitrary: n ls)
  case (LNode h ts)
  from LNode.prems(4) obtain m where n: "n = Suc m" and m: "foldr max (map height ts) 0 \<le> m"
    by (cases n) auto
  have "context_children m st (map root_of ts) ls
      = Some (Inr (concat (map (context_order st) ts), ls @ concat (map preorder ts)))"
  proof (rule forest_context)
    from LNode.prems(1) show "\<forall>t\<in>set ts. shaped st t" by simp
    from LNode.prems(2) show "distinct (concat (map preorder ts))" by simp
    from LNode.prems(3) show "set (concat (map preorder ts)) \<inter> set ls = {}" by simp
    from m height_member show "\<forall>t\<in>set ts. height t \<le> m" by (meson le_trans)
    show "safe_iter_context k st (root_of u) l
            = Some (Inr (context_order st u, l @ tl (preorder u)))"
      if "u \<in> set ts" "shaped st u" "distinct (preorder u)"
        "set (tl (preorder u)) \<inter> set l = {}" "height u \<le> k" for u k l
      using LNode.IH that by simp
  qed
  with LNode.prems(1) n show ?case
    by (simp add: emit_def and_then_def text_items_def)
qed


lemma safe_iter_context_iff:
  "safe_iter_context n st e ls = Some (Inr (xs, ls')) \<longleftrightarrow>
     (\<exists>m zs. n = Suc m
        \<and> context_children m st (children (st e)) ls = Some (Inr (zs, ls'))
        \<and> xs = [Elem e] @ (case elem_text (st e) of None \<Rightarrow> [] | Some t \<Rightarrow> [Text t])
                 @ map Attr (attrib (st e)) @ zs)"
  by (cases n) (auto simp: run_simps text_items_def)

text \<open>
  C9, as the code has it. In the full-context walk every node the walk enters (the
  starting node, every global child, every ordinary local child met for the first time)
  contributes, in this order: the node itself, its text if that is not \<^verbatim>\<open>None\<close>, one
  (name, value) item per attribute, and then the items of its children, taken in
  document order; what follows is the contribution of the next sibling. A reference
  child contributes the node alone, without its text, its attributes or its children,
  and an ordinary local child that is already registered contributes nothing. On a tree
  without global nodes, references or sharing the whole output is the tree laid out in
  that order, node by node.
\<close>

theorem context_walk_order:
  "(safe_iter_context n st e ls = Some (Inr (xs, ls')) \<longleftrightarrow>
      (\<exists>m zs. n = Suc m
         \<and> context_children m st (children (st e)) ls = Some (Inr (zs, ls'))
         \<and> xs = [Elem e] @ (case elem_text (st e) of None \<Rightarrow> [] | Some t \<Rightarrow> [Text t])
                  @ map Attr (attrib (st e)) @ zs))
   \<and> (is_global (st c) \<or> (ref (st c) = None \<and> c \<notin> set ls) \<longrightarrow>
        (context_children n st (c # rest) ls = Some (Inr (xs, ls')) \<longleftrightarrow>
          (\<exists>m ws l1 zs. n = Suc m
             \<and> context_children m st (children (st c))
                 (if is_global (st c) then ls else ls @ [c]) = Some (Inr (ws, l1))
             \<and> context_children n st rest l1 = Some (Inr (zs, ls'))
             \<and> xs = [Elem c] @ (case elem_text (st c) of None \<Rightarrow> [] | Some t \<Rightarrow> [Text t])
                      @ map Attr (attrib (st c)) @ ws @ zs)))
   \<and> (\<not> is_global (st c) \<and> ref (st c) \<noteq> None \<longrightarrow>
        (context_children n st (c # rest) ls = Some (Inr (xs, ls')) \<longleftrightarrow>
          (\<exists>zs. context_children n st rest ls = Some (Inr (zs, ls')) \<and> xs = Elem c # zs)))
   \<and> (\<not> is_global (st c) \<and> ref (st c) = None \<and> c \<in> set ls \<longrightarrow>
        context_children n st (c # rest) ls = context_children n st rest ls)
   \<and> (shaped st t \<and> distinct (preorder t) \<and> height t \<le> fuel \<longrightarrow>
        iter_context fuel st (root_of t)
          = Some (Inr (context_order st t, tl (preorder t))))"
proof (intro conjI impI)
  show "safe_iter_context n st e ls = Some (Inr (xs, ls')) \<longleftrightarrow>
      (\<exists>m zs. n = Suc m
         \<and> context_children m st (children (st e)) ls = Some (Inr (zs, ls'))
         \<and> xs = [Elem e] @ (case elem_text (st e) of None \<Rightarrow> [] | Some t \<Rightarrow> [Text t])
                  @ map Attr (attrib (st e)) @ zs)"
    by (rule safe_iter_context_iff)
next
  assume entered: "is_global (st c) \<or> (ref (st c) = None \<and> c \<notin> set ls)"
  let ?l = "if is_global (st c) then ls else ls @ [c]"
  from entered have step: "context_children n st (c # rest) ls
      = and_then (safe_iter_context n st c ?l) (\<lambda>l1. context_children n st rest l1)"
    by auto
  show "context_children n st (c # rest) ls = Some (Inr (xs, ls')) \<longleftrightarrow>
      (\<exists>m ws l1 zs. n = Suc m
         \<and> context_children m st (children (st c)) ?l = Some (Inr (ws, l1))
         \<and> context_children n st rest l1 = Some (Inr (zs, ls'))
         \<and> xs = [Elem c] @ (case elem_text (st c) of None \<Rightarrow> [] | Some t \<Rightarrow> [Text t])
                  @ map Attr (attrib (st c)) @ ws @ zs)"
    unfolding step and_then_eq_Inr safe_iter_context_iff by auto
next
  assume "\<not> is_global (st c) \<and> ref (st c) \<noteq> None"
  then show "context_children n st (c # rest) ls = Some (Inr (xs, ls')) \<longleftrightarrow>
      (\<exists>zs. context_children n st rest ls = Some (Inr (zs, ls')) \<and> xs = Elem c # zs)"
    by (auto simp: run_simps)
next
  assume "\<not> is_global (st c) \<and> ref (st c) = None \<and> c \<in> set ls"
  then show "context_children n st (c # rest) ls = context_children n st rest ls"
    by simp
next
  assume "shaped st t \<and> distinct (preorder t) \<and> height t \<le> fuel"
  then show "iter_context fuel st (root_of t) = Some (Inr (context_order st t, tl (preorder t)))"
    using tree_context [of st t "[]" fuel] by (simp add: iter_context_def)
qed

theorem context_walk_order_witness:
  "\<not> is_global (rich_store 1) \<and> ref (rich_store 1) = None \<and> 1 \<notin> set ([] :: nat list)
   \<and> context_children 2 rich_store [1, 3] []
       = Some (Inr ([Elem 1, Text ''t'', Attr (''c'', ''3''), Elem 2, Text ''u'', Elem 3], [1, 2]))
   \<and> context_children 1 rich_store (children (rich_store 1)) [1]
       = Some (Inr ([Elem 2, Text ''u''], [1, 2]))
   \<and> context_children 2 rich_store [3] [1, 2] = Some (Inr ([Elem 3], [1, 2]))
   \<and> shaped rich_store rich_tree \<and> distinct (preorder rich_tree) \<and> height rich_tree \<le> 2
   \<and> iter_context 2 rich_store 1
       = Some (Inr ([Elem 1, Text ''t'', Attr (''c'', ''3''), Elem 2, Text ''u''], [2]))"
proof -
  have h: "\<not> is_global (rich_store 1)" "ref (rich_store 1) = None" by code_simp+
  have a: "context_children 2 rich_store [1, 3] []
       = Some (Inr ([Elem 1, Text ''t'', Attr (''c'', ''3''), Elem 2, Text ''u'', Elem 3], [1, 2]))"
    by code_simp
  have b: "context_children 1 rich_store (children (rich_store 1)) [1]
       = Some (Inr ([Elem 2, Text ''u''], [1, 2]))"
    "context_children 2 rich_store [3] [1, 2] = Some (Inr ([Elem 3], [1, 2]))"
    by code_simp+
  have t: "shaped rich_store rich_tree" "distinct (preorder rich_tree)" "height rich_tree \<le> 2"
    by code_simp+
  have v: "root_of rich_tree = 1" "tl (preorder rich_tree) = [2]"
    "context_order rich_store rich_tree
       = [Elem 1, Text ''t'', Attr (''c'', ''3''), Elem 2, Text ''u'']"
    by code_simp+
  from context_walk_order [where st = rich_store and t = rich_tree and fuel = 2] t v
  have "iter_context 2 rich_store 1
       = Some (Inr ([Elem 1, Text ''t'', Attr (''c'', ''3''), Elem 2, Text ''u''], [2]))"
    by simp
  with h a b t show ?thesis by simp
qed

text \<open>
  Node 3 of \<open>rich_store\<close> is a reference child with text and an attribute. The walk
  yields it, and neither its text nor its attribute follows.
\<close>

theorem reference_child_yielded_without_text_or_attributes:
  "\<not> is_global (rich_store 3) \<and> ref (rich_store 3) = Some 1
   \<and> elem_text (rich_store 3) = Some ''x'' \<and> attrib (rich_store 3) = [(''k'', ''v'')]
   \<and> children (rich_store 0) = [1, 3]
   \<and> iter_context 3 rich_store 0
       = Some (Inr ([Elem 0, Text ''r'', Attr (''a'', ''1''),
                     Elem 1, Text ''t'', Attr (''c'', ''3''), Elem 2, Text ''u'',
                     Elem 3], [1, 2]))
   \<and> Text ''x'' \<notin> set [Elem 0, Text ''r'', Attr (''a'', ''1''),
                     Elem 1, Text ''t'', Attr (''c'', ''3''), Elem 2, Text ''u'', Elem 3]
   \<and> Attr (''k'', ''v'') \<notin> set [Elem 0, Text ''r'', Attr (''a'', ''1''),
                     Elem 1, Text ''t'', Attr (''c'', ''3''), Elem 2, Text ''u'', Elem 3]"
  by code_simp

section \<open>Reference and global children\<close>



lemma context_run_elems:
  assumes "safe_iter_context n st elem ls = Some (Inr (xs, ls'))"
  shows "safe_iter n st None elem ls = Some (Inr (filter is_Elem xs, ls'))"
  using assms context_elems(1) [of None n st elem ls] by (simp add: only_elems_def)


lemma registered_is_local:
  assumes "safe_iter n st tg elem ls = Some (Inr (xs, ls'))" and "c \<in> set ls'"
    and "is_global (st c) \<or> ref (st c) \<noteq> None"
  shows "c \<in> set ls"
proof -
  from registry_grows(1) [OF assms(1)] obtain new where
    "ls' = ls @ new" "fresh st ls new" by blast
  with assms(2,3) show ?thesis by (auto simp: fresh_def)
qed



lemma safe_iter_None_head:
  assumes "safe_iter n st None g ls = Some (Inr (xs, ls'))"
  shows "\<exists>ys. xs = Elem g # ys"
  using assms by (cases n) (auto simp: yield_if_True run_simps)

lemma safe_iter_context_first:
  assumes "safe_iter_context n st g ls = Some (Inr (xs, ls'))"
  shows "\<exists>ys. xs = Elem g # ys"
  using assms by (cases n) (auto simp: run_simps)

text \<open>
  C5, as the code has it. A global child is recursed into whatever the registry holds and
  whether or not it also carries a \<^verbatim>\<open>ref\<close>: the global test comes first. With no tag
  filter its own item opens what the child contributes, on every encounter. No walk ever
  adds a global node to the registry, and the unfiltered walks raise no exception. What
  a second expansion of the same global node yields is decided by the registry: ordinary
  local descendants registered during the first expansion are skipped.
\<close>

theorem global_child_always_entered:
  assumes "is_global (st g)"
  shows "safe_iter_children n st tg elem (g # rest) ls
           = and_then (safe_iter n st tg g ls) (\<lambda>ls1. safe_iter_children n st tg elem rest ls1)
    \<and> context_children n st (g # rest) ls
           = and_then (safe_iter_context n st g ls) (\<lambda>ls1. context_children n st rest ls1)
    \<and> (safe_iter_children n st None elem (g # rest) ls = Some (Inr (xs, ls')) \<longrightarrow>
          (\<exists>ys. xs = Elem g # ys))
    \<and> (context_children n st (g # rest) ls = Some (Inr (xs, ls')) \<longrightarrow>
          (\<exists>ys. xs = Elem g # ys))
    \<and> (safe_iter m st tg r l0 = Some (Inr (ws, l1)) \<and> g \<in> set l1 \<longrightarrow> g \<in> set l0)
    \<and> (safe_iter_context m st r l0 = Some (Inr (ws, l1)) \<and> g \<in> set l1 \<longrightarrow> g \<in> set l0)
    \<and> safe_iter m st None r l0 \<noteq> Some (Inl e)
    \<and> safe_iter_context m st r l0 \<noteq> Some (Inl e)"
proof (intro conjI impI)
  show "safe_iter_children n st tg elem (g # rest) ls
      = and_then (safe_iter n st tg g ls) (\<lambda>ls1. safe_iter_children n st tg elem rest ls1)"
    using assms by simp
  show "context_children n st (g # rest) ls
      = and_then (safe_iter_context n st g ls) (\<lambda>ls1. context_children n st rest ls1)"
    using assms by simp
  show "\<exists>ys. xs = Elem g # ys"
    if "safe_iter_children n st None elem (g # rest) ls = Some (Inr (xs, ls'))"
    using that assms safe_iter_None_head [of n st g ls] by (auto simp: run_simps)
  show "\<exists>ys. xs = Elem g # ys"
    if "context_children n st (g # rest) ls = Some (Inr (xs, ls'))"
    using that assms safe_iter_context_first [of n st g ls] by (auto simp: run_simps)
  show "g \<in> set l0" if "safe_iter m st tg r l0 = Some (Inr (ws, l1)) \<and> g \<in> set l1"
    using that assms registered_is_local by blast
  show "g \<in> set l0" if "safe_iter_context m st r l0 = Some (Inr (ws, l1)) \<and> g \<in> set l1"
    using that assms registered_is_local context_run_elems by blast
  show "safe_iter m st None r l0 \<noteq> Some (Inl e)"
    by (rule safe_iter_no_raise(1)) simp
  show "safe_iter_context m st r l0 \<noteq> Some (Inl e)"
    by (rule safe_iter_context_no_raise)
qed

theorem global_child_always_entered_witness:
  "is_global (both_store 1) \<and> ref (both_store 1) = Some 3
   \<and> safe_iter_children 2 both_store None 0 [1] [] = Some (Inr ([Elem 1, Elem 2], [2]))
   \<and> context_children 2 both_store [1] [] = Some (Inr ([Elem 1, Elem 2], [2]))
   \<and> iter 3 both_store 0 None = Some (Inr ([Elem 0, Elem 1, Elem 2], [2]))
   \<and> iter 3 twice_store 0 None = Some (Inr ([Elem 0, Elem 1, Elem 2, Elem 1], [2]))"
proof -
  have h: "is_global (both_store 1)" by code_simp
  have a: "safe_iter_children 2 both_store None 0 [1] []
      = Some (Inr ([Elem 1, Elem 2], [2]))" by code_simp
  have b: "context_children 2 both_store [1] [] = Some (Inr ([Elem 1, Elem 2], [2]))"
    by code_simp
  have c: "ref (both_store 1) = Some 3"
    "iter 3 both_store 0 None = Some (Inr ([Elem 0, Elem 1, Elem 2], [2]))"
    "iter 3 twice_store 0 None = Some (Inr ([Elem 0, Elem 1, Elem 2, Elem 1], [2]))"
    by code_simp+
  from global_child_always_entered
    [where st = both_store and g = 1 and n = 2 and elem = 0 and rest = "[]" and ls = "[]"
      and xs = "[Elem 1, Elem 2]" and ls' = "[2]" and tg = None, OF h] a
  have "and_then (safe_iter 2 both_store None 1 [])
          (\<lambda>ls1. safe_iter_children 2 both_store None 0 [] ls1)
        = Some (Inr ([Elem 1, Elem 2], [2]))"
    by simp
  with h a b c show ?thesis by simp
qed

text \<open>
  Node 0 lists the global node 1 twice, and node 1 has the local child 2. The second
  expansion of node 1 yields node 1 alone: its child was registered during the first.
\<close>

theorem global_reached_twice_skips_registered_child:
  "is_global (twice_store 1) \<and> children (twice_store 0) = [1, 1]
   \<and> children (twice_store 1) = [2]
   \<and> iter 3 twice_store 0 None = Some (Inr ([Elem 0, Elem 1, Elem 2, Elem 1], [2]))
   \<and> iter_context 3 twice_store 0 = Some (Inr ([Elem 0, Elem 1, Elem 2, Elem 1], [2]))
   \<and> iter 3 twice_store 0 None \<noteq> Some (Inr ([Elem 0, Elem 1, Elem 2, Elem 1, Elem 2], [2]))"
  by code_simp

section \<open>The registry is keyed by identity\<close>



lemma count_list_filter: "P x \<Longrightarrow> count_list (filter P xs) x = count_list xs x"
  by (induction xs) auto

















text \<open>
  C4, evaluated on the code. Node 0 is an ordinary local node (not global, no \<^verbatim>\<open>ref\<close>)
  and its own child. The walk from node 0 starts with an empty registry and enters node
  0 without registering it, so its first encounter as a child registers and enters it
  again: the node is yielded and expanded twice in one call, in all three walkers.
\<close>

theorem local_root_in_cycle_expanded_twice:
  "\<not> is_global (self_store 0) \<and> ref (self_store 0) = None \<and> children (self_store 0) = [0]
   \<and> iter 3 self_store 0 None = Some (Inr ([Elem 0, Elem 0], [0]))
   \<and> iter_descendants 3 self_store 0 = Some (Inr ([Elem 0, Elem 0], [0]))
   \<and> iter_context 3 self_store 0 = Some (Inr ([Elem 0, Elem 0], [0]))
   \<and> count_list [Elem 0, Elem 0] (Elem 0) = 2"
  by code_simp

section \<open>The depth bound does not change a run\<close>

text \<open>
  A run that returns within some depth returns the same items and registry within any
  larger depth: the bound only decides whether the run is seen to return.
\<close>


lemma and_then_mono:
  assumes "and_then m k = Some r"
    and "\<And>r'. m = Some r' \<Longrightarrow> m' = Some r'"
    and "\<And>l r'. k l = Some r' \<Longrightarrow> k' l = Some r'"
  shows "and_then m' k' = Some r"
proof (cases m)
  case None
  with assms(1) show ?thesis by simp
next
  case (Some a)
  with assms(2) have m': "m' = Some a" by simp
  show ?thesis
  proof (cases a)
    case (Inl e)
    with Some m' assms(1) show ?thesis by (auto simp: and_then_def)
  next
    case (Inr p)
    obtain ys ls where p: "p = (ys, ls)" by (cases p)
    with Some Inr assms(1) obtain r' where r': "k ls = Some r'"
      by (auto simp: and_then_def split: option.splits)
    from assms(3) [OF r'] have "k' ls = Some r'" .
    with r' Some Inr p m' assms(1) show ?thesis by (simp add: and_then_def)
  qed
qed

lemma more_fuel_same_run:
  shows "safe_iter n st tg elem ls = Some r \<Longrightarrow> safe_iter (Suc n) st tg elem ls = Some r"
    and "safe_iter_children n st tg elem cs ls = Some r
           \<Longrightarrow> safe_iter_children (Suc n) st tg elem cs ls = Some r"
proof (induction n st tg elem ls and n st tg elem cs ls arbitrary: r and r
    rule: safe_iter_safe_iter_children.induct)
  case (1 st tg elem ls)
  then show ?case by simp
next
  case (2 n st tg elem ls)
  from "2.prems" have "and_then (yield_if (tag_test tg (st elem)) (Elem elem) ls)
      (\<lambda>ls1. safe_iter_children n st tg elem (children (st elem)) ls1) = Some r"
    by simp
  then have "and_then (yield_if (tag_test tg (st elem)) (Elem elem) ls)
      (\<lambda>ls1. safe_iter_children (Suc n) st tg elem (children (st elem)) ls1) = Some r"
    by (rule and_then_mono) (assumption, erule "2.IH")
  then show ?case by simp
next
  case (3 n st tg elem ls)
  then show ?case by simp
next
  case (4 n st tg elem child rest ls)
  show ?case
  proof (cases "is_global (st child)")
    case True
    with "4.prems" have "and_then (safe_iter n st tg child ls)
        (\<lambda>ls1. safe_iter_children n st tg elem rest ls1) = Some r" by simp
    then have "and_then (safe_iter (Suc n) st tg child ls)
        (\<lambda>ls1. safe_iter_children (Suc n) st tg elem rest ls1) = Some r"
      by (rule and_then_mono) (erule "4.IH"(1) [OF True], erule "4.IH"(2) [OF True])
    with True show ?thesis by simp
  next
    case notglobal: False
    show ?thesis
    proof (cases "ref (st child) \<noteq> None")
      case True
      with notglobal "4.prems" have "and_then (yield_if (tag_test tg (st elem)) (Elem child) ls)
          (\<lambda>ls1. safe_iter_children n st tg elem rest ls1) = Some r" by simp
      then have "and_then (yield_if (tag_test tg (st elem)) (Elem child) ls)
          (\<lambda>ls1. safe_iter_children (Suc n) st tg elem rest ls1) = Some r"
        by (rule and_then_mono) (assumption, erule "4.IH"(3) [OF notglobal True])
      with notglobal True show ?thesis by simp
    next
      case noref: False
      show ?thesis
      proof (cases "child \<in> set ls")
        case True
        with notglobal noref "4.prems" "4.IH"(6) [OF notglobal noref] show ?thesis by simp
      next
        case False
        with notglobal noref "4.prems" have "and_then (safe_iter n st tg child (ls @ [child]))
            (\<lambda>ls1. safe_iter_children n st tg elem rest ls1) = Some r" by simp
        then have "and_then (safe_iter (Suc n) st tg child (ls @ [child]))
            (\<lambda>ls1. safe_iter_children (Suc n) st tg elem rest ls1) = Some r"
          by (rule and_then_mono)
            (erule "4.IH"(4) [OF notglobal noref False],
              erule "4.IH"(5) [OF notglobal noref False])
        with notglobal noref False show ?thesis by simp
      qed
    qed
  qed
qed

lemma iter_fuel_independent:
  assumes "iter n st root tg = Some r" and "n \<le> m"
  shows "iter m st root tg = Some r"
proof -
  from assms(2) obtain k where m: "m = n + k" by (auto simp: le_iff_add)
  have "safe_iter (n + k) st tg' root [] = Some r" if "safe_iter n st tg' root [] = Some r" for tg'
    using that by (induction k) (simp_all del: safe_iter.simps add: more_fuel_same_run(1))
  with assms(1) m show ?thesis by (simp add: iter_def Let_def)
qed

end
